theory Spec2Isabelle
  imports Complex_Main
begin

section \<open>Values exchanged with the server\<close>

text \<open>
  The client of \<^verbatim>\<open>panopto-oauth-client.py\<close> receives JSON documents and handles them as the
  Python objects \<^verbatim>\<open>response.json()\<close> returns. A parsed document is a value of \<open>json\<close>; a
  dictionary is an association list with distinct keys, in insertion order. A \<open>char\<close> stands
  for one character of a Python \<^verbatim>\<open>str\<close>. A JSON number with a fraction or an exponent is a
  Python float, here \<open>JFloat\<close> with the rational value of the float; NaN and the
  infinities are outside the model.
\<close>

datatype json =
    JNull
  | JBool bool
  | JInt int
  | JFloat rat
  | JStr string
  | JArr "json list"
  | JObj "(string \<times> json) list"

text \<open>The exceptions the script can raise or catch.\<close>

datatype exn =
    RequestException
  | HTTPError int
  | JSONDecodeError
  | AttributeError
  | TypeError
  | KeyError string
  | UnboundLocalError string
  | TokenError

text \<open>\<^verbatim>\<open>d.get(key, default)\<close> on a dictionary.\<close>

definition dict_get :: "(string \<times> json) list \<Rightarrow> string \<Rightarrow> json \<Rightarrow> json" where
  "dict_get d k dflt = (case map_of d k of None \<Rightarrow> dflt | Some v \<Rightarrow> v)"

text \<open>Truth value of an object, as \<^verbatim>\<open>if not results\<close> tests it.\<close>

fun truthy :: "json \<Rightarrow> bool" where
  "truthy JNull = False"
| "truthy (JBool b) = b"
| "truthy (JInt i) = (i \<noteq> 0)"
| "truthy (JFloat q) = (q \<noteq> 0)"
| "truthy (JStr s) = (s \<noteq> [])"
| "truthy (JArr xs) = (xs \<noteq> [])"
| "truthy (JObj d) = (d \<noteq> [])"

text \<open>
  The elements \<^verbatim>\<open>list.extend\<close> appends: those of a list, the characters of a string, the
  keys of a dictionary. Any other object is not iterable (TypeError), here \<open>None\<close>.
\<close>

fun py_iter :: "json \<Rightarrow> json list option" where
  "py_iter (JArr xs) = Some xs"
| "py_iter (JStr s) = Some (map (\<lambda>c. JStr [c]) s)"
| "py_iter (JObj d) = Some (map (\<lambda>kv. JStr (fst kv)) d)"
| "py_iter _ = None"

text \<open>\<^verbatim>\<open>len(x)\<close>: strings, lists and dictionaries have a length, any other object raises
  TypeError, here \<open>None\<close>.\<close>

fun py_len :: "json \<Rightarrow> nat option" where
  "py_len (JStr s) = Some (length s)"
| "py_len (JArr xs) = Some (length xs)"
| "py_len (JObj d) = Some (length d)"
| "py_len _ = None"

text \<open>
  The integer an object of type \<^verbatim>\<open>int\<close> or \<^verbatim>\<open>bool\<close> is in arithmetic (\<^verbatim>\<open>True == 1\<close>), and
  the number an object is in a comparison with an \<^verbatim>\<open>int\<close>, which Python decides on the
  exact values. An object that is no number raises TypeError there, here \<open>None\<close>.
\<close>

fun as_int :: "json \<Rightarrow> int option" where
  "as_int (JInt i) = Some i"
| "as_int (JBool b) = Some (if b then 1 else 0)"
| "as_int _ = None"

fun as_number :: "json \<Rightarrow> rat option" where
  "as_number (JInt i) = Some (of_int i)"
| "as_number (JBool b) = Some (if b then 1 else 0)"
| "as_number (JFloat q) = Some q"
| "as_number _ = None"

section \<open>The network and the client object\<close>

text \<open>
  What \<^verbatim>\<open>requests.get\<close> gives: it raises a \<^verbatim>\<open>RequestException\<close> (no response), or returns
  a response with a status code and a body; \<open>body = None\<close> is a body that
  \<^verbatim>\<open>response.json()\<close> cannot parse.
\<close>

datatype response =
    ConnectionFailed
  | Response int "json option"

text \<open>\<^verbatim>\<open>response.raise_for_status()\<close> of the requests library raises for 4xx and 5xx only.\<close>

definition raise_for_status :: "int \<Rightarrow> bool" where
  "raise_for_status status \<longleftrightarrow> 400 \<le> status \<and> status < 600"

record params =
  sortField :: string
  sortOrder :: string
  pageNumber :: nat
  pageSize :: nat

record request =
  endpoint :: string
  headers :: "(string \<times> string) list"
  query :: params

text \<open>
  The environment of a run: the outcome of the OAuth2 grant, the responses the server will
  give to the GET requests still to come (the head answers the next request), the requests
  sent so far, the text of each file, and Python's \<^verbatim>\<open>str\<close> on lists, dictionaries and
  floats (\<open>repr_container\<close>, a parameter of the model).
\<close>

record world =
  oauth_grant :: "exn + string"
  responses :: "nat \<Rightarrow> response"
  sent :: "request list"
  files :: "string \<rightharpoonup> string"
  repr_container :: "json \<Rightarrow> string"

record client =
  server_url :: string
  access_token :: "string option"

text \<open>\<^verbatim>\<open>s.rstrip('/')\<close>\<close>

definition rstrip_slash :: "string \<Rightarrow> string" where
  "rstrip_slash s = rev (dropWhile (\<lambda>c. c = CHR ''/'') (rev s))"

text \<open>
  \<^verbatim>\<open>PanoptoClient.__init__\<close>. The fields \<^verbatim>\<open>server\<close> and \<^verbatim>\<open>oauth2\<close> only configure the
  external OAuth2 helper, whose outcome is \<open>oauth_grant\<close>.
\<close>

definition init_client :: "string \<Rightarrow> client" where
  "init_client url = \<lparr>server_url = rstrip_slash url, access_token = None\<rparr>"

definition ensure_authenticated :: "client \<Rightarrow> world \<Rightarrow> (exn + string) \<times> client" where
  "ensure_authenticated c w =
     (case access_token c of
        Some t \<Rightarrow>
          (if t \<noteq> [] then (Inr t, c)
           else (case oauth_grant w of
                   Inl e \<Rightarrow> (Inl e, c)
                 | Inr t' \<Rightarrow> (Inr t', c\<lparr>access_token := Some t'\<rparr>)))
      | None \<Rightarrow>
          (case oauth_grant w of
             Inl e \<Rightarrow> (Inl e, c)
           | Inr t' \<Rightarrow> (Inr t', c\<lparr>access_token := Some t'\<rparr>)))"

definition get_headers :: "client \<Rightarrow> world \<Rightarrow> (exn + (string \<times> string) list) \<times> client" where
  "get_headers c w =
     (case ensure_authenticated c w of
        (Inl e, c') \<Rightarrow> (Inl e, c')
      | (Inr token, c') \<Rightarrow>
          (Inr [(''Authorization'', ''Bearer '' @ token),
                (''Content-Type'', ''application/json'')], c'))"

text \<open>\<^verbatim>\<open>requests.get(endpoint, headers=headers, params=params)\<close>\<close>

definition http_get :: "request \<Rightarrow> world \<Rightarrow> response \<times> world" where
  "http_get rq w =
     (responses w 0,
      w\<lparr>responses := (\<lambda>n. responses w (Suc n)), sent := sent w @ [rq]\<rparr>)"

section \<open>get_folder_contents\<close>

record loop_state =
  all_recordings :: "json list"
  page_number :: nat
  total_recordings :: "json option"

text \<open>
  How one pass through the body of \<^verbatim>\<open>while True\<close> ends: the loop goes on, a \<^verbatim>\<open>break\<close>
  statement is reached, or an exception reaches one of the two handlers, which break.
\<close>

datatype flow = Continue | Break | Caught exn

text \<open>
  The \<^verbatim>\<open>try\<close> block after \<^verbatim>\<open>requests.get\<close>, lines 77 to 112. \<open>total_recordings = None\<close> is
  the local variable not yet bound. Assignments made before an exception stay. The
  \<^verbatim>\<open>print\<close> of line 98 takes \<^verbatim>\<open>len(results)\<close>, which raises for an object without length.
\<close>

definition try_page :: "response \<Rightarrow> loop_state \<Rightarrow> flow \<times> loop_state" where
  "try_page r s =
     (case r of
        ConnectionFailed \<Rightarrow> (Caught RequestException, s)
      | Response status body \<Rightarrow>
          if status \<noteq> 200 \<and> raise_for_status status then (Caught (HTTPError status), s)
          else
            (case body of
               None \<Rightarrow> (Caught JSONDecodeError, s)
             | Some (JObj d) \<Rightarrow>
                 (let results = dict_get d ''Results'' (JArr []);
                      total = dict_get d ''TotalNumberOfResults'' (JInt 0);
                      s1 = s\<lparr>total_recordings := Some total\<rparr>
                  in case py_len results of
                       None \<Rightarrow> (Caught TypeError, s1)
                     | Some _ \<Rightarrow>
                         if \<not> truthy results then (Break, s1)
                         else
                           (case py_iter results of
                              None \<Rightarrow> (Caught TypeError, s1)
                            | Some xs \<Rightarrow>
                                (let s2 = s1\<lparr>all_recordings := all_recordings s1 @ xs\<rparr>
                                 in case as_number total of
                                      None \<Rightarrow> (Caught TypeError, s2)
                                    | Some t \<Rightarrow>
                                        if of_nat (length (all_recordings s2)) \<ge> t
                                        then (Break, s2)
                                        else (Continue, s2\<lparr>page_number := page_number s2 + 1\<rparr>))))
             | Some _ \<Rightarrow> (Caught AttributeError, s)))"

text \<open>
  The values the loop variables take in one pass, in order: after the assignment of
  line 95, after the \<^verbatim>\<open>extend\<close> of line 105 and after the increment of line 112, as far as
  the pass gets.
\<close>

definition pass_points :: "response \<Rightarrow> loop_state \<Rightarrow> loop_state list" where
  "pass_points r s =
     (case r of
        ConnectionFailed \<Rightarrow> []
      | Response status body \<Rightarrow>
          if status \<noteq> 200 \<and> raise_for_status status then []
          else
            (case body of
               None \<Rightarrow> []
             | Some (JObj d) \<Rightarrow>
                 (let results = dict_get d ''Results'' (JArr []);
                      total = dict_get d ''TotalNumberOfResults'' (JInt 0);
                      s1 = s\<lparr>total_recordings := Some total\<rparr>
                  in s1 #
                     (case py_len results of
                        None \<Rightarrow> []
                      | Some _ \<Rightarrow>
                          if \<not> truthy results then []
                          else
                            (case py_iter results of
                               None \<Rightarrow> []
                             | Some xs \<Rightarrow>
                                 (let s2 = s1\<lparr>all_recordings := all_recordings s1 @ xs\<rparr>
                                  in s2 #
                                     (case as_number total of
                                        None \<Rightarrow> []
                                      | Some t \<Rightarrow>
                                          if of_nat (length (all_recordings s2)) \<ge> t then []
                                          else [s2\<lparr>page_number := page_number s2 + 1\<rparr>])))))
             | Some _ \<Rightarrow> []))"

definition page_request :: "string \<Rightarrow> (string \<times> string) list \<Rightarrow> nat \<Rightarrow> request" where
  "page_request ep hs n =
     \<lparr>endpoint = ep, headers = hs,
      query = \<lparr>sortField = ''CreatedDate'', sortOrder = ''Desc'', pageNumber = n, pageSize = 100\<rparr>\<rparr>"

text \<open>One pass through the loop body: the request for the current page, then the block.\<close>

definition loop_iter ::
  "string \<Rightarrow> (string \<times> string) list \<Rightarrow> loop_state \<Rightarrow> world \<Rightarrow> flow \<times> loop_state \<times> world" where
  "loop_iter ep hs s w =
     (case http_get (page_request ep hs (page_number s)) w of
        (r, w') \<Rightarrow> (case try_page r s of (fl, s') \<Rightarrow> (fl, s', w')))"

text \<open>The loop itself; \<open>None\<close> is a loop that never ends.\<close>

partial_function (option) fetch_loop ::
  "string \<Rightarrow> (string \<times> string) list \<Rightarrow> loop_state \<Rightarrow> world \<Rightarrow> (loop_state \<times> world) option" where
  "fetch_loop ep hs s w =
     (case loop_iter ep hs s w of
        (Continue, s', w') \<Rightarrow> fetch_loop ep hs s' w'
      | (_, s', w') \<Rightarrow> Some (s', w'))"

declare fetch_loop.simps [code]

definition init_loop :: loop_state where
  "init_loop = \<lparr>all_recordings = [], page_number = 1, total_recordings = None\<rparr>"

definition sessions_endpoint :: "client \<Rightarrow> string \<Rightarrow> string" where
  "sessions_endpoint c folder_id =
     server_url c @ ''/Panopto/api/v1/folders/'' @ folder_id @ ''/sessions''"

text \<open>
  The whole method. The last \<^verbatim>\<open>print\<close> (line 121) reads \<^verbatim>\<open>total_recordings\<close>, outside the
  \<^verbatim>\<open>try\<close>: with the variable unbound it raises UnboundLocalError.
\<close>

definition get_folder_contents ::
  "client \<Rightarrow> string \<Rightarrow> world \<Rightarrow> ((exn + json list) \<times> client \<times> world) option" where
  "get_folder_contents c folder_id w =
     (case get_headers c w of
        (Inl e, c') \<Rightarrow> Some (Inl e, c', w)
      | (Inr hs, c') \<Rightarrow>
          (case fetch_loop (sessions_endpoint c' folder_id) hs init_loop w of
             None \<Rightarrow> None
           | Some (s, w') \<Rightarrow>
               (case total_recordings s of
                  None \<Rightarrow> Some (Inl (UnboundLocalError ''total_recordings''), c', w')
                | Some _ \<Rightarrow> Some (Inr (all_recordings s), c', w'))))"

section \<open>export_recordings_to_csv\<close>

text \<open>Decimal digits, \<^verbatim>\<open>str\<close> of an integer, and the format specification \<^verbatim>\<open>02d\<close>.\<close>

definition digit_char :: "nat \<Rightarrow> char" where
  "digit_char n = ''0123456789'' ! n"

function show_nat :: "nat \<Rightarrow> string" where
  "show_nat n = (if n < 10 then [digit_char n] else show_nat (n div 10) @ [digit_char (n mod 10)])"
  by pat_completeness auto
termination
  by (relation "measure id") auto

declare show_nat.simps [simp del]

definition show_int :: "int \<Rightarrow> string" where
  "show_int i = (if i < 0 then CHR ''-'' # show_nat (nat (- i)) else show_nat (nat i))"

text \<open>
  \<^verbatim>\<open>format(i, '0Wd')\<close>: the sign, then zeros up to the width \<open>W\<close>, then the digits; a
  number too long for the width is written in full.
\<close>

definition format_0d :: "nat \<Rightarrow> int \<Rightarrow> string" where
  "format_0d width i =
     (let sign = (if i < 0 then [CHR ''-''] else []);
          ds = show_nat (nat \<bar>i\<bar>)
      in sign @ replicate (width - length sign - length ds) CHR ''0'' @ ds)"

text \<open>\<^verbatim>\<open>str(x)\<close>, as an f-string and the csv writer apply it.\<close>

definition py_str :: "(json \<Rightarrow> string) \<Rightarrow> json \<Rightarrow> string" where
  "py_str rc v =
     (case v of
        JNull \<Rightarrow> ''None''
      | JBool b \<Rightarrow> (if b then ''True'' else ''False'')
      | JInt i \<Rightarrow> show_int i
      | JStr s \<Rightarrow> s
      | _ \<Rightarrow> rc v)"

text \<open>
  Floor division and remainder of a float by a positive number, and \<^verbatim>\<open>int(x)\<close> of a
  float, which drops the fraction. The arithmetic here is exact; Python's is on doubles,
  which gives the same results for \<open>0 \<le> x < 2 ^ 53\<close>.
\<close>

definition float_floordiv :: "rat \<Rightarrow> rat \<Rightarrow> rat" where
  "float_floordiv x y = of_int \<lfloor>x / y\<rfloor>"

definition float_mod :: "rat \<Rightarrow> rat \<Rightarrow> rat" where
  "float_mod x y = x - y * of_int \<lfloor>x / y\<rfloor>"

definition int_of_float :: "rat \<Rightarrow> int" where
  "int_of_float x = (if 0 \<le> x then \<lfloor>x\<rfloor> else \<lceil>x\<rceil>)"

text \<open>
  Lines 155 to 159: the duration in seconds as hours, minutes and seconds, in integer
  arithmetic for an \<^verbatim>\<open>int\<close> and in float arithmetic for a float.
\<close>

definition format_duration :: "json \<Rightarrow> exn + string" where
  "format_duration duration_secs =
     (case duration_secs of
        JFloat x \<Rightarrow>
          (let hours = int_of_float (float_floordiv x 3600);
               minutes = int_of_float (float_floordiv (float_mod x 3600) 60);
               seconds = int_of_float (float_mod x 60)
           in Inr (format_0d 2 hours @ '':'' @ format_0d 2 minutes @ '':'' @ format_0d 2 seconds))
      | _ \<Rightarrow>
          (case as_int duration_secs of
             None \<Rightarrow> Inl TypeError
           | Some d \<Rightarrow>
               (let hours = d div 3600;
                    minutes = (d mod 3600) div 60;
                    seconds = d mod 60
                in Inr (format_0d 2 hours @ '':'' @ format_0d 2 minutes @ '':'' @
                        format_0d 2 seconds))))"

text \<open>The dictionary given to \<^verbatim>\<open>writer.writerow\<close>, one field per column.\<close>

record row =
  Name :: json
  ID :: json
  Duration :: json
  Created :: json
  Folder :: json
  Views :: json
  Status :: json
  URL :: json

definition fieldnames :: "string list" where
  "fieldnames = [''Name'', ''ID'', ''Duration'', ''Created'', ''Folder'', ''Views'', ''Status'', ''URL'']"

definition row_cells :: "row \<Rightarrow> json list" where
  "row_cells r = [Name r, ID r, Duration r, Created r, Folder r, Views r, Status r, URL r]"

text \<open>
  Lines 155 to 172 for one recording: \<^verbatim>\<open>recording.get\<close> needs a dictionary
  (AttributeError otherwise), the duration is computed first, and \<^verbatim>\<open>recording['Id']\<close>
  raises KeyError when the key is missing.
\<close>

definition export_row :: "(json \<Rightarrow> string) \<Rightarrow> string \<Rightarrow> json \<Rightarrow> exn + row" where
  "export_row rc url recording =
     (case recording of
        JObj d \<Rightarrow>
          (case format_duration (dict_get d ''Duration'' (JInt 0)) of
             Inl e \<Rightarrow> Inl e
           | Inr duration \<Rightarrow>
               (case map_of d ''Id'' of
                  None \<Rightarrow> Inl (KeyError ''Id'')
                | Some i \<Rightarrow>
                    (let recording_url = url @ ''/Panopto/Pages/Viewer.aspx?id='' @ py_str rc i
                     in Inr \<lparr>Name = dict_get d ''Name'' (JStr []),
                             ID = dict_get d ''Id'' (JStr []),
                             Duration = JStr duration,
                             Created = dict_get d ''CreatedDate'' (JStr []),
                             Folder = dict_get d ''ParentFolderId'' (JStr []),
                             Views = dict_get d ''ViewerCount'' (JInt 0),
                             Status = dict_get d ''State'' (JStr []),
                             URL = JStr recording_url\<rparr>)))
      | _ \<Rightarrow> Inl AttributeError)"

text \<open>
  The csv writer with its default dialect: \<^verbatim>\<open>None\<close> is written as the empty field, a
  string as it is, any other object through \<^verbatim>\<open>str\<close>; a field holding a comma, a double
  quote, a carriage return or a line feed is put in double quotes, its double quotes
  doubled; fields are joined by commas and the line ends with CR LF.
\<close>

definition csv_text :: "(json \<Rightarrow> string) \<Rightarrow> json \<Rightarrow> string" where
  "csv_text rc v = (case v of JNull \<Rightarrow> [] | _ \<Rightarrow> py_str rc v)"

definition csv_field :: "string \<Rightarrow> string" where
  "csv_field s =
     (if list_ex (\<lambda>c. c \<in> set [CHR '','', CHR 0x22, CHR 0x0D, CHR 0x0A]) s
      then [CHR 0x22] @ concat (map (\<lambda>c. if c = CHR 0x22 then [c, c] else [c]) s) @ [CHR 0x22]
      else s)"

fun join_commas :: "string list \<Rightarrow> string" where
  "join_commas [] = []"
| "join_commas [s] = s"
| "join_commas (s # ss) = s @ '','' @ join_commas ss"

definition csv_line :: "(json \<Rightarrow> string) \<Rightarrow> json list \<Rightarrow> string" where
  "csv_line rc cells = join_commas (map (\<lambda>v. csv_field (csv_text rc v)) cells) @ [CHR 0x0D, CHR 0x0A]"

text \<open>
  The \<^verbatim>\<open>for\<close> loop over the recordings: the text written so far grows by one line per
  recording; an exception leaves what was written before it.
\<close>

fun write_rows :: "(json \<Rightarrow> string) \<Rightarrow> string \<Rightarrow> json list \<Rightarrow> string \<Rightarrow> exn option \<times> string" where
  "write_rows rc url [] txt = (None, txt)"
| "write_rows rc url (recording # rest) txt =
     (case export_row rc url recording of
        Inl e \<Rightarrow> (Some e, txt)
      | Inr r \<Rightarrow> write_rows rc url rest (txt @ csv_line rc (row_cells r)))"

text \<open>
  The whole method. Every exception is printed and raised again. The file is opened for
  writing (mode \<^verbatim>\<open>'w'\<close>: any earlier content is lost) only when there are recordings.
  Failures of the file system itself are outside the model.
\<close>

definition export_recordings_to_csv ::
  "client \<Rightarrow> string \<Rightarrow> string \<Rightarrow> world \<Rightarrow> ((exn + unit) \<times> client \<times> world) option" where
  "export_recordings_to_csv c folder_id output_file w =
     (case get_folder_contents c folder_id w of
        None \<Rightarrow> None
      | Some (Inl e, c', w') \<Rightarrow> Some (Inl e, c', w')
      | Some (Inr recordings, c', w') \<Rightarrow>
          if recordings = [] then Some (Inr (), c', w')
          else
            (case write_rows (repr_container w') (server_url c') recordings
                    (csv_line (repr_container w') (map JStr fieldnames)) of
               (None, txt) \<Rightarrow> Some (Inr (), c', w'\<lparr>files := (files w')(output_file \<mapsto> txt)\<rparr>)
             | (Some e, txt) \<Rightarrow> Some (Inl e, c', w'\<lparr>files := (files w')(output_file \<mapsto> txt)\<rparr>)))"

section \<open>Server behaviours and runs\<close>

text \<open>
  A well-formed page: status 200 and a JSON object with the recordings of the page and the
  total the server declares.
\<close>

definition ok_page :: "json list \<Rightarrow> int \<Rightarrow> response" where
  "ok_page results n =
     Response 200 (Some (JObj [(''Results'', JArr results), (''TotalNumberOfResults'', JInt n)]))"

text \<open>
  With \<open>rs n\<close> the recordings of page \<open>n\<close> (pages count from 1) and \<open>ts n\<close> the total
  declared on it: the recordings of pages 1 to \<open>k\<close>, and the two reasons to stop after
  page \<open>n\<close>.
\<close>

definition accumulated :: "(nat \<Rightarrow> json list) \<Rightarrow> nat \<Rightarrow> json list" where
  "accumulated rs k = concat (map rs [1..<Suc k])"

definition stop_condition :: "(nat \<Rightarrow> json list) \<Rightarrow> (nat \<Rightarrow> int) \<Rightarrow> nat \<Rightarrow> bool" where
  "stop_condition rs ts n \<longleftrightarrow> rs n = [] \<or> ts n \<le> int (length (accumulated rs n))"

text \<open>The environment once pages 1 to \<open>k\<close> have been requested, each exactly once.\<close>

definition world_after :: "string \<Rightarrow> (string \<times> string) list \<Rightarrow> world \<Rightarrow> nat \<Rightarrow> world" where
  "world_after ep hs w k =
     w\<lparr>responses := (\<lambda>n. responses w (n + k)),
       sent := sent w @ map (page_request ep hs) [1..<Suc k]\<rparr>"

text \<open>The variables of the loop once \<open>m\<close> pages have been taken in and the loop goes on.\<close>

definition state_after :: "(nat \<Rightarrow> json list) \<Rightarrow> (nat \<Rightarrow> int) \<Rightarrow> nat \<Rightarrow> loop_state" where
  "state_after rs ts m =
     \<lparr>all_recordings = accumulated rs m, page_number = Suc m,
      total_recordings = (if m = 0 then None else Some (JInt (ts m)))\<rparr>"

text \<open>
  The states at the head of the loop: the first one, and each one that a pass ending
  without \<^verbatim>\<open>break\<close> and without exception leads to.
\<close>

inductive loop_reaches ::
  "string \<Rightarrow> (string \<times> string) list \<Rightarrow> world \<Rightarrow> loop_state \<Rightarrow> world \<Rightarrow> bool"
  for ep hs w0 where
    start: "loop_reaches ep hs w0 init_loop w0"
  | step: "loop_reaches ep hs w0 s w \<Longrightarrow> loop_iter ep hs s w = (Continue, s', w')
             \<Longrightarrow> loop_reaches ep hs w0 s' w'"


text \<open>What a call returned or raised, and the requests on the wire when it ended.\<close>

definition returned :: "('a \<times> client \<times> world) option \<Rightarrow> 'a option" where
  "returned = map_option fst"

definition requests_sent :: "('a \<times> client \<times> world) option \<Rightarrow> request list option" where
  "requests_sent = map_option (\<lambda>x. sent (snd (snd x)))"

definition files_after :: "('a \<times> client \<times> world) option \<Rightarrow> (string \<rightharpoonup> string) option" where
  "files_after = map_option (\<lambda>x. files (snd (snd x)))"

text \<open>
  Environments for examples: a server that answers from a list of responses and then
  drops the connection, a granted token, no file yet.
\<close>

definition serve :: "response list \<Rightarrow> nat \<Rightarrow> response" where
  "serve xs n = (if n < length xs then xs ! n else ConnectionFailed)"

definition quiet_world :: "(nat \<Rightarrow> response) \<Rightarrow> world" where
  "quiet_world srv =
     \<lparr>oauth_grant = Inr ''token'', responses = srv, sent = [], files = Map.empty,
      repr_container = (\<lambda>v. [])\<rparr>"

text \<open>
  Page \<open>n\<close> (from 1) of the recordings \<open>recs\<close> cut into pages of 100, and a server
  holding \<open>recs\<close> that answers request after request with page after page.
\<close>

definition page_of :: "json list \<Rightarrow> nat \<Rightarrow> json list" where
  "page_of recs n = take 100 (drop ((n - 1) * 100) recs)"

definition paged_server :: "json list \<Rightarrow> nat \<Rightarrow> response" where
  "paged_server recs n = ok_page (page_of recs (Suc n)) (int (length recs))"

definition rec_a :: json where
  "rec_a = JObj [(''Id'', JStr ''a''), (''Name'', JStr ''Lecture 1''), (''Duration'', JInt 3725)]"

definition rec_b :: json where
  "rec_b = JObj [(''Id'', JStr ''b'')]"

text \<open>A server whose declared total grows with every request, one recording per page.\<close>

definition growing_server :: "nat \<Rightarrow> response" where
  "growing_server n = ok_page [rec_a] (int n + 2)"

section \<open>Facts about the formatting\<close>





lemma int_div_bounds:
  fixes a b :: int
  assumes "0 < b"
  shows "a div b * b \<le> a" and "a < (a div b + 1) * b"
proof -
  have eq: "a = a div b * b + a mod b" by simp
  have m: "0 \<le> a mod b" "a mod b < b" using assms by simp_all
  from eq m show "a div b * b \<le> a" by linarith
  have "(a div b + 1) * b = a div b * b + b" by (simp add: algebra_simps)
  with eq m show "a < (a div b + 1) * b" by linarith
qed

lemma floor_div_pos:
  fixes x :: rat and b :: int
  assumes "0 < b"
  shows "\<lfloor>x / of_int b\<rfloor> = \<lfloor>x\<rfloor> div b"
proof (rule floor_unique)
  have b: "(0::rat) < of_int b" using assms by simp
  have "(of_int (\<lfloor>x\<rfloor> div b * b) :: rat) \<le> of_int \<lfloor>x\<rfloor>"
    using int_div_bounds(1) [OF assms, of "\<lfloor>x\<rfloor>"] by (simp only: of_int_le_iff)
  also have "\<dots> \<le> x" by simp
  finally show "of_int (\<lfloor>x\<rfloor> div b) \<le> x / of_int b"
    using b by (simp add: pos_le_divide_eq)
  from int_div_bounds(2) [OF assms, of "\<lfloor>x\<rfloor>"]
  have "\<lfloor>x\<rfloor> + 1 \<le> (\<lfloor>x\<rfloor> div b + 1) * b" by simp
  then have "(of_int (\<lfloor>x\<rfloor> + 1) :: rat) \<le> of_int ((\<lfloor>x\<rfloor> div b + 1) * b)"
    by (simp only: of_int_le_iff)
  moreover have "x < of_int (\<lfloor>x\<rfloor> + 1)" by linarith
  ultimately have "x < of_int ((\<lfloor>x\<rfloor> div b + 1) * b)" by linarith
  then show "x / of_int b < of_int (\<lfloor>x\<rfloor> div b) + 1"
    using b by (simp add: pos_divide_less_eq)
qed

lemma int_of_float_of_int: "int_of_float (of_int k) = k"
  by (simp add: int_of_float_def)

lemma float_hours: "int_of_float (float_floordiv x 3600) = \<lfloor>x\<rfloor> div 3600"
  using floor_div_pos [of 3600 x] by (simp add: float_floordiv_def int_of_float_of_int)

lemma float_minutes:
  "int_of_float (float_floordiv (float_mod x 3600) 60) = \<lfloor>x\<rfloor> mod 3600 div 60"
proof -
  have "float_mod x 3600 = x - of_int (3600 * (\<lfloor>x\<rfloor> div 3600))"
    using floor_div_pos [of 3600 x] by (simp add: float_mod_def)
  then have "\<lfloor>float_mod x 3600\<rfloor> = \<lfloor>x\<rfloor> - 3600 * (\<lfloor>x\<rfloor> div 3600)"
    by (simp only: floor_diff_of_int)
  also have "\<dots> = \<lfloor>x\<rfloor> mod 3600"
    by (simp add: minus_mult_div_eq_mod)
  finally have "\<lfloor>float_mod x 3600\<rfloor> = \<lfloor>x\<rfloor> mod 3600" .
  with floor_div_pos [of 60 "float_mod x 3600"] show ?thesis
    by (simp add: float_floordiv_def int_of_float_of_int)
qed

lemma float_seconds: "int_of_float (float_mod x 60) = \<lfloor>x\<rfloor> mod 60"
proof -
  have eq: "float_mod x 60 = x - of_int (60 * (\<lfloor>x\<rfloor> div 60))"
    using floor_div_pos [of 60 x] by (simp add: float_mod_def)
  then have "\<lfloor>float_mod x 60\<rfloor> = \<lfloor>x\<rfloor> - 60 * (\<lfloor>x\<rfloor> div 60)"
    by (simp only: floor_diff_of_int)
  also have "\<dots> = \<lfloor>x\<rfloor> mod 60"
    by (simp add: minus_mult_div_eq_mod)
  finally have fl: "\<lfloor>float_mod x 60\<rfloor> = \<lfloor>x\<rfloor> mod 60" .
  have "0 \<le> \<lfloor>float_mod x 60\<rfloor>" unfolding fl by simp
  then have "0 \<le> float_mod x 60" by (simp only: zero_le_floor)
  with fl show ?thesis by (simp add: int_of_float_def)
qed

lemma format_duration_float: "format_duration (JFloat x) = format_duration (JInt \<lfloor>x\<rfloor>)"
  by (simp add: format_duration_def float_hours float_minutes float_seconds Let_def)





lemma duration_float_example: "format_duration (JFloat (37259 / 10)) = Inr ''01:02:05''"
proof -
  have "\<lfloor>of_int 37259 / of_int 10 :: rat\<rfloor> = 37259 div 10"
    by (rule floor_divide_of_int_eq)
  then have "\<lfloor>37259 / 10 :: rat\<rfloor> = 3725" by simp
  then have "format_duration (JFloat (37259 / 10)) = format_duration (JInt 3725)"
    by (simp only: format_duration_float)
  also have "\<dots> = Inr ''01:02:05''"
    by (simp add: format_duration_def format_0d_def Let_def show_nat.simps digit_char_def)
  finally show ?thesis .
qed

lemma export_row_Inr:
  assumes "export_row rc url (JObj d) = Inr r"
  obtains dur i where "format_duration (dict_get d ''Duration'' (JInt 0)) = Inr dur"
    and "map_of d ''Id'' = Some i"
    and "r = \<lparr>Name = dict_get d ''Name'' (JStr []), ID = dict_get d ''Id'' (JStr []),
              Duration = JStr dur, Created = dict_get d ''CreatedDate'' (JStr []),
              Folder = dict_get d ''ParentFolderId'' (JStr []),
              Views = dict_get d ''ViewerCount'' (JInt 0),
              Status = dict_get d ''State'' (JStr []),
              URL = JStr (url @ ''/Panopto/Pages/Viewer.aspx?id='' @ py_str rc i)\<rparr>"
  using assms by (auto simp: export_row_def Let_def split: sum.splits option.splits)

section \<open>Facts about the loop\<close>

lemma fetch_loop_break:
  "fst (loop_iter ep hs s w) \<noteq> Continue \<Longrightarrow>
   fetch_loop ep hs s w = Some (snd (loop_iter ep hs s w))"
  by (subst fetch_loop.simps) (auto split: prod.splits flow.splits)

lemma fetch_loop_continue:
  "loop_iter ep hs s w = (Continue, s', w') \<Longrightarrow> fetch_loop ep hs s w = fetch_loop ep hs s' w'"
  by (subst fetch_loop.simps) simp

lemma fetch_loop_go_on:
  "fst (loop_iter ep hs s w) = Continue \<Longrightarrow>
   fetch_loop ep hs s w =
     fetch_loop ep hs (fst (snd (loop_iter ep hs s w))) (snd (snd (loop_iter ep hs s w)))"
  by (subst fetch_loop.simps) (auto split: prod.splits flow.splits)

lemma fetch_loop_cases:
  assumes "(case loop_iter ep hs s w of
              (Continue, s', w') \<Rightarrow> f ep hs s' w'
            | (_, s', w') \<Rightarrow> Some (s', w')) = Some y"
  obtains s' w' where "loop_iter ep hs s w = (Continue, s', w')" "f ep hs s' w' = Some y"
  | fl s' w' where "loop_iter ep hs s w = (fl, s', w')" "fl \<noteq> Continue" "y = (s', w')"
  using assms by (auto split: prod.splits flow.splits)

lemma world_after_0: "world_after ep hs w 0 = w"
  by (simp add: world_after_def)

lemma http_get_world_after:
  "http_get (page_request ep hs (Suc m)) (world_after ep hs w m) =
     (responses w m, world_after ep hs w (Suc m))"
  by (simp add: http_get_def world_after_def)

lemma accumulated_0: "accumulated rs 0 = []"
  by (simp add: accumulated_def)

lemma accumulated_Suc: "accumulated rs (Suc m) = accumulated rs m @ rs (Suc m)"
  by (simp add: accumulated_def)

lemma state_after_0: "state_after rs ts 0 = init_loop"
  by (simp add: state_after_def init_loop_def accumulated_0)

lemma try_page_ok:
  "try_page (ok_page results n) s =
     (if results = [] then (Break, s\<lparr>total_recordings := Some (JInt n)\<rparr>)
      else if n \<le> int (length (all_recordings s @ results))
        then (Break, s\<lparr>total_recordings := Some (JInt n),
                        all_recordings := all_recordings s @ results\<rparr>)
        else (Continue, s\<lparr>total_recordings := Some (JInt n),
                           all_recordings := all_recordings s @ results,
                           page_number := page_number s + 1\<rparr>))"
  by (simp add: try_page_def ok_page_def raise_for_status_def dict_get_def Let_def)

lemma loop_iter_continue_page:
  assumes "responses w m = ok_page (rs (Suc m)) (ts (Suc m))" "\<not> stop_condition rs ts (Suc m)"
  shows "loop_iter ep hs (state_after rs ts m) (world_after ep hs w m)
           = (Continue, state_after rs ts (Suc m), world_after ep hs w (Suc m))"
  using assms
  by (simp add: loop_iter_def state_after_def http_get_world_after try_page_ok
      stop_condition_def accumulated_Suc)

lemma loop_iter_stop_page:
  assumes "responses w m = ok_page (rs (Suc m)) (ts (Suc m))" "stop_condition rs ts (Suc m)"
  shows "loop_iter ep hs (state_after rs ts m) (world_after ep hs w m)
           = (Break, \<lparr>all_recordings = accumulated rs (Suc m), page_number = Suc m,
                total_recordings = Some (JInt (ts (Suc m)))\<rparr>, world_after ep hs w (Suc m))"
  using assms
  by (auto simp add: loop_iter_def state_after_def http_get_world_after try_page_ok
      stop_condition_def accumulated_Suc)

lemma fetch_loop_pages:
  assumes "\<forall>n. 1 \<le> n \<and> n \<le> m \<longrightarrow>
             responses w (n - 1) = ok_page (rs n) (ts n) \<and> \<not> stop_condition rs ts n"
  shows "fetch_loop ep hs init_loop w =
           fetch_loop ep hs (state_after rs ts m) (world_after ep hs w m)"
  using assms
proof (induction m)
  case 0
  show ?case by (simp add: state_after_0 world_after_0)
next
  case (Suc m)
  then have "fetch_loop ep hs init_loop w =
      fetch_loop ep hs (state_after rs ts m) (world_after ep hs w m)"
    by simp
  moreover from Suc.prems
  have "responses w m = ok_page (rs (Suc m)) (ts (Suc m))" "\<not> stop_condition rs ts (Suc m)"
    by (auto dest: spec [of _ "Suc m"])
  then have "loop_iter ep hs (state_after rs ts m) (world_after ep hs w m)
           = (Continue, state_after rs ts (Suc m), world_after ep hs w (Suc m))"
    by (rule loop_iter_continue_page)
  ultimately show ?case by (simp add: fetch_loop_continue)
qed

lemma fetch_loop_first_stop:
  assumes "1 \<le> k"
    and "\<forall>n. 1 \<le> n \<and> n \<le> k \<longrightarrow> responses w (n - 1) = ok_page (rs n) (ts n)"
    and "\<forall>n. 1 \<le> n \<and> n < k \<longrightarrow> \<not> stop_condition rs ts n"
    and "stop_condition rs ts k"
  shows "fetch_loop ep hs init_loop w =
           Some (\<lparr>all_recordings = accumulated rs k, page_number = k,
                   total_recordings = Some (JInt (ts k))\<rparr>, world_after ep hs w k)"
proof -
  from assms(1) obtain m where k: "k = Suc m" by (cases k) auto
  have "fetch_loop ep hs init_loop w =
      fetch_loop ep hs (state_after rs ts m) (world_after ep hs w m)"
    using assms(2,3) by (intro fetch_loop_pages) (auto simp: k)
  moreover have "loop_iter ep hs (state_after rs ts m) (world_after ep hs w m)
           = (Break, \<lparr>all_recordings = accumulated rs (Suc m), page_number = Suc m,
                total_recordings = Some (JInt (ts (Suc m)))\<rparr>, world_after ep hs w (Suc m))"
    using assms(2,4) by (intro loop_iter_stop_page) (auto simp: k dest: spec [of _ "Suc m"])
  ultimately show ?thesis by (simp add: fetch_loop_break k)
qed

lemma loop_iter_sent:
  "loop_iter ep hs s w = (fl, s', w') \<Longrightarrow> length (sent w') = Suc (length (sent w))"
  by (auto simp: loop_iter_def http_get_def split: prod.splits)

lemma loop_iter_files:
  "loop_iter ep hs s w = (fl, s', w') \<Longrightarrow>
   files w' = files w \<and> repr_container w' = repr_container w"
  by (auto simp: loop_iter_def http_get_def split: prod.splits)

lemma fetch_loop_sent:
  assumes "fetch_loop ep hs s w = Some y"
  shows "length (sent w) < length (sent (snd y))"
proof (rule fetch_loop.raw_induct
    [where P = "\<lambda>ep hs s w y. length (sent w) < length (sent (snd y))", OF _ assms], goal_cases)
  case (1 f ep hs s w y)
  note IH = 1(1)
  from 1(2) show ?case
  proof (cases rule: fetch_loop_cases)
    case (1 s' w')
    from 1(2) have "length (sent w') < length (sent (snd y))" by (rule IH)
    with loop_iter_sent [OF 1(1)] show ?thesis by simp
  next
    case (2 fl s' w')
    with loop_iter_sent [OF 2(1)] show ?thesis by simp
  qed
qed

lemma fetch_loop_files:
  assumes "fetch_loop ep hs s w = Some y"
  shows "files (snd y) = files w \<and> repr_container (snd y) = repr_container w"
proof (rule fetch_loop.raw_induct
    [where P = "\<lambda>ep hs s w y. files (snd y) = files w \<and> repr_container (snd y) = repr_container w",
      OF _ assms], goal_cases)
  case (1 f ep hs s w y)
  note IH = 1(1)
  from 1(2) show ?case
  proof (cases rule: fetch_loop_cases)
    case (1 s' w')
    from 1(2) have "files (snd y) = files w' \<and> repr_container (snd y) = repr_container w'"
      by (rule IH)
    with loop_iter_files [OF 1(1)] show ?thesis by simp
  next
    case (2 fl s' w')
    with loop_iter_files [OF 2(1)] show ?thesis by simp
  qed
qed

text \<open>The variables of the loop depend on the responses only, not on what is sent.\<close>

lemma loop_iter_same_responses:
  assumes "loop_iter ep hs s w = (fl, s', w')" "responses v = responses w"
  shows "\<exists>v'. loop_iter ep2 hs2 s v = (fl, s', v') \<and> responses v' = responses w'"
  using assms by (auto simp: loop_iter_def http_get_def split: prod.splits)

lemma fetch_loop_same_responses:
  assumes "fetch_loop ep hs s w = Some y"
  shows "\<forall>v. responses v = responses w \<longrightarrow> (\<exists>v'. fetch_loop ep2 hs2 s v = Some (fst y, v'))"
proof (rule fetch_loop.raw_induct
    [where P = "\<lambda>ep hs s w y. \<forall>v. responses v = responses w \<longrightarrow>
                  (\<exists>v'. fetch_loop ep2 hs2 s v = Some (fst y, v'))", OF _ assms], goal_cases)
  case (1 f ep hs s w y)
  note IH = 1(1)
  from 1(2) show ?case
  proof (cases rule: fetch_loop_cases)
    case (1 s' w')
    show ?thesis
    proof (intro allI impI)
      fix v :: world assume v: "responses v = responses w"
      from loop_iter_same_responses [OF 1(1) v, of ep2 hs2] obtain v1
        where v1: "loop_iter ep2 hs2 s v = (Continue, s', v1)" "responses v1 = responses w'"
        by blast
      from IH [OF 1(2)] v1(2) obtain v' where "fetch_loop ep2 hs2 s' v1 = Some (fst y, v')"
        by blast
      with v1(1) show "\<exists>v'. fetch_loop ep2 hs2 s v = Some (fst y, v')"
        by (subst fetch_loop.simps) simp
    qed
  next
    case (2 fl s' w')
    show ?thesis
    proof (intro allI impI)
      fix v :: world assume v: "responses v = responses w"
      from loop_iter_same_responses [OF 2(1) v, of ep2 hs2] obtain v1
        where v1: "loop_iter ep2 hs2 s v = (fl, s', v1)" by blast
      with 2(2,3) show "\<exists>v'. fetch_loop ep2 hs2 s v = Some (fst y, v')"
        by (subst fetch_loop.simps) (cases fl; simp)
    qed
  qed
qed

lemma accumulated_pages: "accumulated (page_of recs) k = take (k * 100) recs"
proof (induction k)
  case 0
  show ?case by (simp add: accumulated_0)
next
  case (Suc k)
  have "take (k * 100) recs @ take 100 (drop (k * 100) recs) = take (k * 100 + 100) recs"
    by (simp add: take_add)
  with Suc show ?case by (simp add: accumulated_Suc page_of_def add.commute)
qed

lemma stop_condition_pages:
  assumes "1 \<le> n"
  shows "stop_condition (page_of recs) (\<lambda>n. int (length recs)) n \<longleftrightarrow> length recs \<le> n * 100"
proof -
  have "page_of recs n = [] \<longleftrightarrow> length recs \<le> (n - 1) * 100"
    by (auto simp: page_of_def)
  moreover have "length recs \<le> (n - 1) * 100 \<Longrightarrow> length recs \<le> n * 100"
    by (metis diff_le_self le_trans mult_le_mono1)
  ultimately show ?thesis
    by (auto simp: stop_condition_def accumulated_pages)
qed

lemma get_folder_contents_first_stop:
  assumes auth: "get_headers c w = (Inr hs, c')"
    and "1 \<le> k"
    and "\<forall>n. 1 \<le> n \<and> n \<le> k \<longrightarrow> responses w (n - 1) = ok_page (rs n) (ts n)"
    and "\<forall>n. 1 \<le> n \<and> n < k \<longrightarrow> \<not> stop_condition rs ts n"
    and "stop_condition rs ts k"
  shows "get_folder_contents c folder_id w =
           Some (Inr (accumulated rs k), c', world_after (sessions_endpoint c' folder_id) hs w k)"
  using fetch_loop_first_stop [OF assms(2-5)] auth
  by (simp add: get_folder_contents_def)

text \<open>The definitions a run on a given environment unfolds.\<close>

lemmas run_defs = get_folder_contents_def get_headers_def ensure_authenticated_def init_client_def
  quiet_world_def serve_def ok_page_def loop_iter_def http_get_def try_page_def raise_for_status_def
  init_loop_def returned_def requests_sent_def files_after_def sessions_endpoint_def rstrip_slash_def
  page_request_def dict_get_def Let_def rec_a_def rec_b_def

lemma defaults_with_id:
  "export_row rc url (JObj [(''Id'', JStr i)]) =
     Inr \<lparr>Name = JStr [], ID = JStr i, Duration = JStr ''00:00:00'', Created = JStr [],
          Folder = JStr [], Views = JInt 0, Status = JStr [],
          URL = JStr (url @ ''/Panopto/Pages/Viewer.aspx?id='' @ i)\<rparr>"
  by (simp add: export_row_def dict_get_def format_duration_def format_0d_def Let_def
        show_nat.simps digit_char_def py_str_def)

lemma views_column_default:
  "csv_line rc (row_cells \<lparr>Name = JStr [], ID = JStr ''a'', Duration = JStr ''00:00:00'',
          Created = JStr [], Folder = JStr [], Views = JInt 0, Status = JStr [],
          URL = JStr ''u''\<rparr>) = '',a,00:00:00,,,0,,u'' @ [CHR 0x0D, CHR 0x0A]"
  by (simp add: csv_line_def row_cells_def csv_text_def csv_field_def py_str_def show_int_def
      show_nat.simps digit_char_def)

lemma first_stop_exists:
  assumes "\<exists>n. 1 \<le> n \<and> n \<le> k \<and> stop_condition rs ts n"
  obtains j where "1 \<le> j" "j \<le> k" "stop_condition rs ts j" "\<forall>n. 1 \<le> n \<and> n < j \<longrightarrow> \<not> stop_condition rs ts n"
proof -
  define j where "j = (LEAST n. 1 \<le> n \<and> n \<le> k \<and> stop_condition rs ts n)"
  from assms have "1 \<le> j \<and> j \<le> k \<and> stop_condition rs ts j"
    unfolding j_def by (rule LeastI_ex)
  moreover have "\<not> stop_condition rs ts n" if "1 \<le> n \<and> n < j" for n
  proof
    assume "stop_condition rs ts n"
    with that \<open>1 \<le> j \<and> j \<le> k \<and> stop_condition rs ts j\<close> have "1 \<le> n \<and> n \<le> k \<and> stop_condition rs ts n" by simp
    then have "j \<le> n" unfolding j_def by (rule Least_le)
    with that show False by simp
  qed
  ultimately show ?thesis using that by blast
qed

lemma world_after_sent: "length (sent (world_after ep hs w k)) = length (sent w) + k"
  by (simp add: world_after_def)



lemma try_page_last_point: "snd (try_page r s) = last (s # pass_points r s)"
proof (cases r)
  case ConnectionFailed
  then show ?thesis by (simp add: try_page_def pass_points_def)
next
  case (Response status body)
  show ?thesis
  proof (cases "status \<noteq> 200 \<and> raise_for_status status")
    case True
    with Response show ?thesis by (simp add: try_page_def pass_points_def)
  next
    case False
    then have F: "(status \<noteq> 200 \<and> raise_for_status status) = False" by simp
    show ?thesis
    proof (cases body)
      case None
      with Response show ?thesis by (simp add: try_page_def pass_points_def F)
    next
      case (Some data)
      show ?thesis
      proof (cases data)
        case (JObj d)
        with Response Some show ?thesis
          by (simp add: try_page_def pass_points_def Let_def F split: option.splits)
      qed (use Response Some in \<open>simp_all add: try_page_def pass_points_def F\<close>)
    qed
  qed
qed

lemma loop_reaches_same_result:
  "loop_reaches ep hs w0 s w \<Longrightarrow> fetch_loop ep hs init_loop w0 = fetch_loop ep hs s w"
  by (induction rule: loop_reaches.induct) (simp_all add: fetch_loop_continue)

lemma get_headers_server_url: "get_headers c w = (x, c') \<Longrightarrow> server_url c' = server_url c"
  by (auto simp: get_headers_def ensure_authenticated_def split: option.splits sum.splits if_splits prod.splits)

lemma get_folder_contents_preserves:
  assumes "get_folder_contents c folder_id w = Some (r, c', w')"
  shows "server_url c' = server_url c \<and> files w' = files w \<and> repr_container w' = repr_container w"
proof -
  obtain x ca where h: "get_headers c w = (x, ca)" by (cases "get_headers c w") auto
  show ?thesis
  proof (cases x)
    case (Inl e)
    with assms h get_headers_server_url [OF h] show ?thesis
      by (simp add: get_folder_contents_def)
  next
    case (Inr hs)
    with assms h obtain s where l: "fetch_loop (sessions_endpoint ca folder_id) hs init_loop w = Some (s, w')"
      and c': "c' = ca"
      by (auto simp: get_folder_contents_def split: option.splits)
    from fetch_loop_files [OF l] c' get_headers_server_url [OF h] show ?thesis by simp
  qed
qed

lemma get_folder_contents_same_responses:
  assumes run: "get_folder_contents c1 folder_id w1 = Some (r, c1', w1')"
    and resp: "responses w2 = responses w1"
    and a1: "fst (get_headers c1 w1) = Inr h1"
    and a2: "fst (get_headers c2 w2) = Inr h2"
  shows "\<exists>c2' w2'. get_folder_contents c2 folder_id w2 = Some (r, c2', w2')"
proof -
  from a1 obtain ca where h1: "get_headers c1 w1 = (Inr h1, ca)" by (cases "get_headers c1 w1") auto
  from a2 obtain cb where h2: "get_headers c2 w2 = (Inr h2, cb)" by (cases "get_headers c2 w2") auto
  from run h1 obtain s where l: "fetch_loop (sessions_endpoint ca folder_id) h1 init_loop w1 = Some (s, w1')"
    and r: "r = (case total_recordings s of None \<Rightarrow> Inl (UnboundLocalError ''total_recordings'')
                 | Some _ \<Rightarrow> Inr (all_recordings s))"
    by (auto simp: get_folder_contents_def split: option.splits)
  from fetch_loop_same_responses [OF l, of "sessions_endpoint cb folder_id" h2] resp
  obtain v' where "fetch_loop (sessions_endpoint cb folder_id) h2 init_loop w2 = Some (s, v')"
    by auto
  with h2 r show ?thesis
    by (auto simp: get_folder_contents_def split: option.splits)
qed

lemma try_page_failed:
  assumes "(400 \<le> status \<and> status < 600) \<or> body = None"
  obtains fl where "try_page (Response status body) s = (fl, s)" "fl \<noteq> Continue"
proof -
  have "\<exists>fl. try_page (Response status body) s = (fl, s) \<and> fl \<noteq> Continue"
  proof (cases "400 \<le> status \<and> status < 600")
    case True
    then show ?thesis by (simp add: try_page_def raise_for_status_def)
  next
    case False
    with assms have "body = None" by simp
    with False show ?thesis by (simp add: try_page_def raise_for_status_def)
  qed
  with that show ?thesis by blast
qed

lemma growing_never_returns:
  assumes "fetch_loop ep hs s w = Some y"
  shows "\<not> (\<exists>m. responses w = (\<lambda>n. growing_server (n + m)) \<and> length (all_recordings s) = m)"
proof (rule fetch_loop.raw_induct
    [where P = "\<lambda>ep hs s w y. \<not> (\<exists>m. responses w = (\<lambda>n. growing_server (n + m)) \<and>
                  length (all_recordings s) = m)", OF _ assms], goal_cases)
  case (1 f ep hs s w y)
  note IH = 1(1)
  show ?case
  proof
    assume "\<exists>m. responses w = (\<lambda>n. growing_server (n + m)) \<and> length (all_recordings s) = m"
    then obtain m where m: "responses w = (\<lambda>n. growing_server (n + m))" "length (all_recordings s) = m"
      by blast
    let ?s' = "s\<lparr>total_recordings := Some (JInt (int m + 2)),
                  all_recordings := all_recordings s @ [rec_a], page_number := page_number s + 1\<rparr>"
    let ?w' = "w\<lparr>responses := (\<lambda>n. responses w (Suc n)),
                  sent := sent w @ [page_request ep hs (page_number s)]\<rparr>"
    from m have it: "loop_iter ep hs s w = (Continue, ?s', ?w')"
      by (simp add: loop_iter_def http_get_def growing_server_def try_page_ok)
    with 1(2) have "f ep hs ?s' ?w' = Some y" by simp
    then have "\<not> (\<exists>k. responses ?w' = (\<lambda>n. growing_server (n + k)) \<and> length (all_recordings ?s') = k)"
      by (rule IH)
    with m show False by simp
  qed
qed

lemma loop_may_run_forever:
  "fetch_loop ep hs init_loop (quiet_world growing_server) = None"
proof (cases "fetch_loop ep hs init_loop (quiet_world growing_server)")
  case None
  then show ?thesis .
next
  case (Some y)
  from growing_never_returns [OF Some] show ?thesis
    by (simp add: init_loop_def quiet_world_def)
qed

lemma last_page_may_overshoot:
  "returned (get_folder_contents (init_client ''https://h'') ''f''
       (quiet_world (serve [ok_page [rec_a, rec_b] 1]))) = Some (Inr [rec_a, rec_b])"
  by (simp add: run_defs fetch_loop_break)

section \<open>The claims\<close>

subsection \<open>C1: a whole folder, page by page\<close>

text \<open>
  Claim C1 says that a folder of \<open>N\<close> recordings served in pages of 100 is returned whole,
  in the order of the pages, after exactly \<open>ceil(N/100)\<close> requests. For an empty folder
  that would be no request at all, but the loop asks for page 1 before it can know: one
  request is sent.
\<close>

theorem empty_folder_one_request:
  "map_option length (requests_sent (get_folder_contents (init_client ''https://h'') ''f''
         (quiet_world (paged_server [])))) = Some 1
   \<and> (length ([] :: json list) + 99) div 100 = 0"
  by (simp add: run_defs paged_server_def page_of_def fetch_loop_break)

text \<open>
  Claim C1, amended: with a token at hand and the server answering pages 1 to \<open>k\<close> with the
  successive hundreds of \<open>recs\<close> and the total \<open>length recs\<close>, where \<open>k\<close> is
  \<open>ceil(N/100)\<close> and at least 1, \<^verbatim>\<open>get_folder_contents\<close> returns exactly \<open>recs\<close>, and
  the requests it sent are those for pages 1 to \<open>k\<close>, in this order, once each, with page
  size 100.
\<close>

theorem fetch_whole_folder:
  assumes auth: "get_headers c w = (Inr hs, c')"
    and pages: "\<forall>n. 1 \<le> n \<and> n \<le> max 1 ((length recs + 99) div 100) \<longrightarrow>
                  responses w (n - 1) = ok_page (page_of recs n) (int (length recs))"
  shows "\<exists>w'. get_folder_contents c folder_id w = Some (Inr recs, c', w') \<and>
           sent w' = sent w @ map (page_request (sessions_endpoint c' folder_id) hs)
                                 [1..<Suc (max 1 ((length recs + 99) div 100))]"
proof -
  let ?k = "max 1 ((length recs + 99) div 100)"
  let ?ts = "\<lambda>n::nat. int (length recs)"
  have k: "1 \<le> ?k" by simp
  have early: "\<forall>n. 1 \<le> n \<and> n < ?k \<longrightarrow> \<not> stop_condition (page_of recs) ?ts n"
  proof (intro allI impI)
    fix n assume n: "1 \<le> n \<and> n < ?k"
    then have "n * 100 < length recs" by (auto simp: max_def split: if_splits)
    with n show "\<not> stop_condition (page_of recs) ?ts n"
      by (simp add: stop_condition_pages)
  qed
  have "length recs \<le> ?k * 100" by (auto simp: max_def)
  then have last: "stop_condition (page_of recs) ?ts ?k"
    using k by (simp only: stop_condition_pages)
  have all: "accumulated (page_of recs) ?k = recs"
    using \<open>length recs \<le> ?k * 100\<close> by (simp only: accumulated_pages take_all)
  from get_folder_contents_first_stop [OF auth k pages early last, of folder_id] all
  show ?thesis by (simp add: world_after_def)
qed

theorem fetch_whole_folder_witness:
  "returned (get_folder_contents (init_client ''https://h'') ''f''
       (quiet_world (paged_server (replicate 250 rec_a))))
     = Some (Inr (replicate 250 rec_a))
   \<and> map_option length (requests_sent (get_folder_contents (init_client ''https://h'') ''f''
         (quiet_world (paged_server (replicate 250 rec_a))))) = Some 3"
proof -
  let ?w = "quiet_world (paged_server (replicate 250 rec_a))"
  let ?c = "init_client ''https://h''"
  have auth: "get_headers ?c ?w = (Inr [(''Authorization'', ''Bearer token''),
                (''Content-Type'', ''application/json'')], ?c\<lparr>access_token := Some ''token''\<rparr>)"
    by (simp add: get_headers_def ensure_authenticated_def init_client_def quiet_world_def)
  have pages: "\<forall>n. 1 \<le> n \<and> n \<le> max 1 ((length (replicate 250 rec_a) + 99) div 100) \<longrightarrow>
                  responses ?w (n - 1) =
                    ok_page (page_of (replicate 250 rec_a) n) (int (length (replicate 250 rec_a)))"
    by (simp add: quiet_world_def paged_server_def)
  from fetch_whole_folder [OF auth pages, of "''f''"] show ?thesis
    by (auto simp: returned_def requests_sent_def quiet_world_def)
qed

subsection \<open>C2: when the loop stops\<close>

text \<open>
  Claim C2 says that the pagination loop terminates, and exactly when one of the two stop
  conditions first holds. Neither holds for every sequence of responses. With a server
  whose declared total grows with each page no condition is ever met and the loop never
  returns. And a failed page ends the loop as well: below, page 1 leaves one recording
  against a total of 3, page 2 comes with status 503 and ends the loop, and page 3, which
  would have met the total, is never asked.
\<close>

theorem loop_need_not_stop_on_condition:
  "fetch_loop ''ep'' [] init_loop (quiet_world growing_server) = None
   \<and> map_option fst (fetch_loop ''ep'' [] init_loop
        (quiet_world (serve [ok_page [rec_a] 3, Response 503 None, ok_page [rec_b, rec_b] 3])))
     = Some \<lparr>all_recordings = [rec_a], page_number = 2, total_recordings = Some (JInt 3)\<rparr>"
proof
  show "fetch_loop ''ep'' [] init_loop (quiet_world growing_server) = None"
    by (rule loop_may_run_forever)
  show "map_option fst (fetch_loop ''ep'' [] init_loop
        (quiet_world (serve [ok_page [rec_a] 3, Response 503 None, ok_page [rec_b, rec_b] 3])))
     = Some \<lparr>all_recordings = [rec_a], page_number = 2, total_recordings = Some (JInt 3)\<rparr>"
    by (simp add: run_defs fetch_loop_break fetch_loop_go_on)
qed

text \<open>
  Claim C2, amended: when the responses to pages 1 to \<open>k\<close> are well-formed, the loop
  returns having sent exactly the requests for pages 1 to \<open>k\<close>, holding the recordings of
  these pages, if and only if page \<open>k\<close> is the first page at which the results are empty
  or the recordings accumulated reach the total declared. So where one of the conditions
  holds at a well-formed page reached through well-formed pages, the loop stops at the
  first such page and sends no further request. The loop is a partial function: that it
  returns is part of what is proved.
\<close>

theorem loop_stops_at_first_stop_condition:
  assumes k: "1 \<le> k"
    and pages: "\<forall>n. 1 \<le> n \<and> n \<le> k \<longrightarrow> responses w (n - 1) = ok_page (rs n) (ts n)"
  shows "(\<exists>s' w'. fetch_loop ep hs init_loop w = Some (s', w') \<and>
            sent w' = sent w @ map (page_request ep hs) [1..<Suc k] \<and>
            all_recordings s' = accumulated rs k)
         \<longleftrightarrow> (stop_condition rs ts k \<and> (\<forall>n. 1 \<le> n \<and> n < k \<longrightarrow> \<not> stop_condition rs ts n))"
    (is "?L \<longleftrightarrow> ?R")
proof
  assume ?R
  with fetch_loop_first_stop [OF k pages, of ep hs] show ?L
    by (simp add: world_after_def)
next
  assume ?L
  then obtain s' w' where run: "fetch_loop ep hs init_loop w = Some (s', w')"
    and sent: "sent w' = sent w @ map (page_request ep hs) [1..<Suc k]" by blast
  from sent have len: "length (sent w') = length (sent w) + k" by simp
  show ?R
  proof (cases "\<exists>n. 1 \<le> n \<and> n \<le> k \<and> stop_condition rs ts n")
    case True
    then obtain j where j: "1 \<le> j" "j \<le> k" "stop_condition rs ts j"
      "\<forall>n. 1 \<le> n \<and> n < j \<longrightarrow> \<not> stop_condition rs ts n"
      by (rule first_stop_exists)
    from pages j(2) have "\<forall>n. 1 \<le> n \<and> n \<le> j \<longrightarrow> responses w (n - 1) = ok_page (rs n) (ts n)"
      by auto
    from fetch_loop_first_stop [OF j(1) this j(4) j(3), of ep hs] run
    have "w' = world_after ep hs w j" by simp
    with len have "j = k" by (simp add: world_after_sent)
    with j show ?thesis by simp
  next
    case False
    with pages have "\<forall>n. 1 \<le> n \<and> n \<le> k \<longrightarrow>
        responses w (n - 1) = ok_page (rs n) (ts n) \<and> \<not> stop_condition rs ts n"
      by blast
    then have "fetch_loop ep hs init_loop w =
        fetch_loop ep hs (state_after rs ts k) (world_after ep hs w k)"
      by (rule fetch_loop_pages)
    with run have "fetch_loop ep hs (state_after rs ts k) (world_after ep hs w k) = Some (s', w')"
      by simp
    from fetch_loop_sent [OF this] len show ?thesis
      by (simp add: world_after_sent)
  qed
qed

theorem loop_stops_at_first_stop_condition_witness:
  "map_option (\<lambda>y. sent (snd y))
      (fetch_loop ''ep'' [] init_loop (quiet_world (serve [ok_page [rec_a] 2, ok_page [rec_b] 2])))
     = Some (map (page_request ''ep'' []) [1, 2])"
proof -
  let ?w = "quiet_world (serve [ok_page [rec_a] 2, ok_page [rec_b] 2])"
  let ?rs = "\<lambda>n::nat. if n = 1 then [rec_a] else [rec_b]"
  let ?ts = "\<lambda>n::nat. 2::int"
  have k: "(1::nat) \<le> 2" by simp
  have pages: "\<forall>n. 1 \<le> n \<and> n \<le> 2 \<longrightarrow> responses ?w (n - 1) = ok_page (?rs n) (?ts n)"
    by (auto simp: quiet_world_def serve_def)
  have stop: "stop_condition ?rs ?ts 2 \<and> (\<forall>n. 1 \<le> n \<and> n < 2 \<longrightarrow> \<not> stop_condition ?rs ?ts n)"
  proof -
    have a1: "accumulated ?rs 1 = [rec_a]" and a2: "accumulated ?rs 2 = [rec_a, rec_b]"
      by (simp_all add: eval_nat_numeral accumulated_Suc accumulated_0)
    have "\<not> stop_condition ?rs ?ts n" if "1 \<le> n \<and> n < 2" for n
    proof -
      from that have "n = 1" by auto
      with a1 show ?thesis by (simp add: stop_condition_def)
    qed
    moreover from a2 have "stop_condition ?rs ?ts 2"
      by (simp add: stop_condition_def)
    ultimately show ?thesis by blast
  qed
  from loop_stops_at_first_stop_condition [OF k pages, of "''ep''" "[]"] stop
  show ?thesis by (auto simp: quiet_world_def eval_nat_numeral)
qed

subsection \<open>C3: a failed page\<close>

text \<open>
  Claim C3 says that a fetch cut short by a failed page is surfaced to the caller as
  distinct from a complete one, and that every status outside 2xx aborts. The method
  returns the bare list: a fetch that fails on page 2 returns the very value a complete
  fetch of one page returns. And only the statuses 400 to 599 raise in
  \<^verbatim>\<open>raise_for_status\<close>: a page with status 304 and a parseable body is taken in like any
  other.
\<close>

theorem partial_result_not_flagged:
  "returned (get_folder_contents (init_client ''https://h'') ''f''
       (quiet_world (serve [ok_page [rec_a] 2, Response 500 None]))) = Some (Inr [rec_a])
   \<and> returned (get_folder_contents (init_client ''https://h'') ''f''
       (quiet_world (serve [ok_page [rec_a] 1]))) = Some (Inr [rec_a])
   \<and> returned (get_folder_contents (init_client ''https://h'') ''f''
       (quiet_world (serve [Response 304 (Some (JObj [(''Results'', JArr [rec_a]),
            (''TotalNumberOfResults'', JInt 2)])), ok_page [rec_b] 2]))) = Some (Inr [rec_a, rec_b])"
  by (simp add: run_defs fetch_loop_break fetch_loop_go_on)

text \<open>
  Claim C3, amended: when pages 1 to \<open>k - 1\<close> (\<open>k \<ge> 2\<close>) are well-formed and the loop goes
  on after each, and page \<open>k\<close> comes with a status from 400 to 599 or with a body that
  cannot be parsed, \<^verbatim>\<open>get_folder_contents\<close> returns exactly the recordings of pages 1 to
  \<open>k - 1\<close>, as a plain list, and the requests sent are those for pages 1 to \<open>k\<close>, once
  each: page \<open>k\<close> is not asked again and no later page is asked.
\<close>

theorem abort_on_failed_page:
  assumes auth: "get_headers c w = (Inr hs, c')"
    and k: "2 \<le> k"
    and pages: "\<forall>n. 1 \<le> n \<and> n < k \<longrightarrow>
                  responses w (n - 1) = ok_page (rs n) (ts n) \<and> \<not> stop_condition rs ts n"
    and failed: "responses w (k - 1) = Response status body"
                "(400 \<le> status \<and> status < 600) \<or> body = None"
  shows "\<exists>w'. get_folder_contents c folder_id w = Some (Inr (accumulated rs (k - 1)), c', w') \<and>
           sent w' = sent w @ map (page_request (sessions_endpoint c' folder_id) hs) [1..<Suc k]"
proof -
  let ?ep = "sessions_endpoint c' folder_id"
  from k obtain m where m: "k = Suc m" "m \<noteq> 0" by (cases k) auto
  from pages have "\<forall>n. 1 \<le> n \<and> n \<le> m \<longrightarrow>
      responses w (n - 1) = ok_page (rs n) (ts n) \<and> \<not> stop_condition rs ts n"
    by (auto simp: m)
  then have go: "fetch_loop ?ep hs init_loop w =
      fetch_loop ?ep hs (state_after rs ts m) (world_after ?ep hs w m)"
    by (rule fetch_loop_pages)
  from failed(2) obtain fl
    where fl: "try_page (Response status body) (state_after rs ts m) = (fl, state_after rs ts m)"
      "fl \<noteq> Continue"
    by (rule try_page_failed)
  from failed(1) fl(1)
  have "loop_iter ?ep hs (state_after rs ts m) (world_after ?ep hs w m) =
      (fl, state_after rs ts m, world_after ?ep hs w (Suc m))"
    by (simp add: loop_iter_def http_get_world_after m state_after_def)
  with go fl(2) have "fetch_loop ?ep hs init_loop w =
      Some (state_after rs ts m, world_after ?ep hs w (Suc m))"
    by (simp add: fetch_loop_break)
  with auth m show ?thesis
    by (simp add: get_folder_contents_def state_after_def world_after_def)
qed

theorem abort_on_failed_page_witness:
  "returned (get_folder_contents (init_client ''https://h'') ''f''
       (quiet_world (serve [ok_page [rec_a] 3, Response 503 None, ok_page [rec_b] 3])))
     = Some (Inr [rec_a])
   \<and> map_option length (requests_sent (get_folder_contents (init_client ''https://h'') ''f''
       (quiet_world (serve [ok_page [rec_a] 3, Response 503 None, ok_page [rec_b] 3])))) = Some 2"
proof -
  let ?w = "quiet_world (serve [ok_page [rec_a] 3, Response 503 None, ok_page [rec_b] 3])"
  let ?c = "init_client ''https://h''"
  let ?rs = "\<lambda>n::nat. [rec_a]"
  let ?ts = "\<lambda>n::nat. 3::int"
  have auth: "get_headers ?c ?w = (Inr [(''Authorization'', ''Bearer token''),
                (''Content-Type'', ''application/json'')], ?c\<lparr>access_token := Some ''token''\<rparr>)"
    by (simp add: get_headers_def ensure_authenticated_def init_client_def quiet_world_def)
  have k: "(2::nat) \<le> 2" by simp
  have a1: "accumulated ?rs (Suc 0) = [rec_a]"
    by (simp add: accumulated_Suc accumulated_0)
  have pages: "\<forall>n. 1 \<le> n \<and> n < 2 \<longrightarrow>
                  responses ?w (n - 1) = ok_page (?rs n) (?ts n) \<and> \<not> stop_condition ?rs ?ts n"
  proof (intro allI impI)
    fix n :: nat assume "1 \<le> n \<and> n < 2"
    then have "n = Suc 0" by auto
    with a1 show "responses ?w (n - 1) = ok_page (?rs n) (?ts n) \<and> \<not> stop_condition ?rs ?ts n"
      by (simp add: quiet_world_def serve_def stop_condition_def)
  qed
  have f1: "responses ?w (2 - 1) = Response 503 None"
    by (simp add: quiet_world_def serve_def)
  have f2: "(400 \<le> (503::int) \<and> (503::int) < 600) \<or> (None :: json option) = None" by simp
  from abort_on_failed_page [OF auth k pages f1 f2, of "''f''"] a1 show ?thesis
    by (auto simp: returned_def requests_sent_def quiet_world_def)
qed

subsection \<open>C4: the Duration column\<close>




subsection \<open>C5: defaults of missing fields\<close>

text \<open>
  Claim C5 says, among the defaults, that a recording without identifier still gets a row,
  with an empty ID. The row dictionary does default \<^verbatim>\<open>Id\<close> to the empty string (line 165),
  but the URL is built before from \<^verbatim>\<open>recording['Id']\<close> (line 161), which raises KeyError:
  no row is written and the export fails. The other defaults hold (\<open>defaults_with_id\<close>,
  \<open>views_column_default\<close>).
\<close>

theorem missing_id_raises:
  "export_row rc url (JObj [(''Name'', JStr ''Lecture'')]) = Inl (KeyError ''Id'')
   \<and> returned (export_recordings_to_csv (init_client ''https://h'') ''f'' ''out.csv''
        (quiet_world (serve [ok_page [JObj [(''Name'', JStr ''Lecture'')]] 1])))
     = Some (Inl (KeyError ''Id''))"
  by (simp add: export_recordings_to_csv_def run_defs fetch_loop_break export_row_def
      format_duration_def)

subsection \<open>C6: no recordings, no file\<close>

text \<open>
  Claim C6: whenever \<^verbatim>\<open>get_folder_contents\<close> returns the empty list,
  \<^verbatim>\<open>export_recordings_to_csv\<close> returns normally and leaves every file as it was. The
  witness is a server that declares no recording on page 1.
\<close>

theorem no_recordings_no_file:
  assumes "get_folder_contents c folder_id w = Some (Inr [], c', w')"
  shows "export_recordings_to_csv c folder_id output_file w = Some (Inr (), c', w') \<and>
         files w' = files w"
  using assms get_folder_contents_preserves [OF assms]
  by (simp add: export_recordings_to_csv_def)

theorem no_recordings_no_file_witness:
  "returned (export_recordings_to_csv (init_client ''https://h'') ''f'' ''out.csv''
       (quiet_world (serve [ok_page [] 0]))) = Some (Inr ())
   \<and> files_after (export_recordings_to_csv (init_client ''https://h'') ''f'' ''out.csv''
       (quiet_world (serve [ok_page [] 0]))) = Some (files (quiet_world (serve [ok_page [] 0])))"
proof -
  let ?w = "quiet_world (serve [ok_page [] 0])"
  let ?c = "init_client ''https://h''"
  have "\<exists>c' w'. get_folder_contents ?c ''f'' ?w = Some (Inr [], c', w')"
    by (simp add: run_defs fetch_loop_break)
  then obtain c' w' where g: "get_folder_contents ?c ''f'' ?w = Some (Inr [], c', w')" by blast
  from no_recordings_no_file [OF g, of "''out.csv''"] show ?thesis
    by (simp add: returned_def files_after_def)
qed

subsection \<open>C7: the accumulated count and the declared total\<close>




subsection \<open>C8: the URL column\<close>

text \<open>
  Claim C8 gives the URL as the server, \<^verbatim>\<open>/Viewer?id=\<close> and the identifier. The path the
  code writes is \<^verbatim>\<open>/Panopto/Pages/Viewer.aspx?id=\<close>.
\<close>

theorem url_not_viewer_path:
  "map_sum id URL (export_row (repr_container (quiet_world (serve []))) ''https://h''
       (JObj [(''Id'', JStr ''a'')]))
     = Inr (JStr ''https://h/Panopto/Pages/Viewer.aspx?id=a'')
   \<and> ''https://h/Panopto/Pages/Viewer.aspx?id=a'' \<noteq> ''https://h'' @ ''/Viewer?id='' @ ''a''"
  by (simp add: defaults_with_id)

text \<open>
  Claim C8, amended: every row written has a recording with an \<^verbatim>\<open>Id\<close>, and its URL column
  is the server URL of the client, then \<^verbatim>\<open>/Panopto/Pages/Viewer.aspx?id=\<close>, then
  \<^verbatim>\<open>str\<close> of the identifier, which is the identifier itself when it is a string.
\<close>

theorem url_column:
  assumes "export_row rc (server_url c) (JObj d) = Inr r"
  shows "\<exists>i. map_of d ''Id'' = Some i \<and>
           URL r = JStr (server_url c @ ''/Panopto/Pages/Viewer.aspx?id='' @ py_str rc i) \<and>
           (\<forall>s. i = JStr s \<longrightarrow>
              URL r = JStr (server_url c @ ''/Panopto/Pages/Viewer.aspx?id='' @ s))"
  using assms by (rule export_row_Inr) (auto simp: py_str_def)

theorem url_column_witness:
  "URL \<lparr>Name = JStr ''Lecture 1'', ID = JStr ''a'', Duration = JStr ''01:02:05'',
            Created = JStr [], Folder = JStr [], Views = JInt 0, Status = JStr [],
            URL = JStr ''https://h/Panopto/Pages/Viewer.aspx?id=a''\<rparr>
     = JStr (server_url (init_client ''https://h/'') @ ''/Panopto/Pages/Viewer.aspx?id='' @ ''a'')"
proof -
  let ?d = "[(''Id'', JStr ''a''), (''Name'', JStr ''Lecture 1''), (''Duration'', JInt 3725)]"
  let ?r = "\<lparr>Name = JStr ''Lecture 1'', ID = JStr ''a'', Duration = JStr ''01:02:05'',
            Created = JStr [], Folder = JStr [], Views = JInt 0, Status = JStr [],
            URL = JStr ''https://h/Panopto/Pages/Viewer.aspx?id=a''\<rparr>"
  have a: "export_row (\<lambda>v. []) (server_url (init_client ''https://h/'')) (JObj ?d) = Inr ?r"
    by (simp add: export_row_def dict_get_def format_duration_def format_0d_def Let_def
        show_nat.simps digit_char_def py_str_def init_client_def rstrip_slash_def)
  from url_column [OF a] show ?thesis
    by (simp add: py_str_def init_client_def rstrip_slash_def)
qed

subsection \<open>C9: the same responses give the same file\<close>

text \<open>
  Claim C9: take two runs of \<^verbatim>\<open>export_recordings_to_csv\<close> with the same server URL, folder
  and output path, in two environments whose servers give the same sequence of responses
  and with the same \<^verbatim>\<open>str\<close> on containers, both with a token at hand or granted. The
  tokens, the requests already sent and the files present may differ. Then if the first
  run ends, the second ends the same way (returns, or raises the same exception), and
  either neither run touches a file or both leave the same text in the output file.
\<close>

theorem export_deterministic:
  assumes url: "server_url c1 = server_url c2"
    and resp: "responses w1 = responses w2"
    and repr: "repr_container w1 = repr_container w2"
    and a1: "fst (get_headers c1 w1) = Inr h1"
    and a2: "fst (get_headers c2 w2) = Inr h2"
    and run: "export_recordings_to_csv c1 folder_id output_file w1 = Some (r, c1', w1')"
  shows "\<exists>c2' w2'. export_recordings_to_csv c2 folder_id output_file w2 = Some (r, c2', w2') \<and>
           ((files w1' = files w1 \<and> files w2' = files w2) \<or>
            (\<exists>txt. files w1' = (files w1)(output_file \<mapsto> txt) \<and>
                   files w2' = (files w2)(output_file \<mapsto> txt)))"
proof -
  from run obtain x ca wa where g1: "get_folder_contents c1 folder_id w1 = Some (x, ca, wa)"
    by (auto simp: export_recordings_to_csv_def split: option.splits)
  from get_folder_contents_same_responses [OF g1 resp [symmetric] a1 a2]
  obtain cb wb where g2: "get_folder_contents c2 folder_id w2 = Some (x, cb, wb)" by blast
  note p1 = get_folder_contents_preserves [OF g1]
  note p2 = get_folder_contents_preserves [OF g2]
  show ?thesis
  proof (cases x)
    case (Inl e)
    with run g1 g2 p1 p2 show ?thesis
      by (auto simp: export_recordings_to_csv_def)
  next
    case (Inr recordings)
    show ?thesis
    proof (cases "recordings = []")
      case True
      with Inr run g1 g2 p1 p2 show ?thesis
        by (auto simp: export_recordings_to_csv_def)
    next
      case False
      from p1 p2 url repr
      have same: "write_rows (repr_container wb) (server_url cb) recordings
                    (csv_line (repr_container wb) (map JStr fieldnames)) =
                  write_rows (repr_container wa) (server_url ca) recordings
                    (csv_line (repr_container wa) (map JStr fieldnames))"
        by simp
      obtain eo csv where wr: "write_rows (repr_container wa) (server_url ca) recordings
                    (csv_line (repr_container wa) (map JStr fieldnames)) = (eo, csv)"
        by (cases "write_rows (repr_container wa) (server_url ca) recordings
                    (csv_line (repr_container wa) (map JStr fieldnames))") auto
      from False Inr run g1 wr
      have r1: "r = (case eo of None \<Rightarrow> Inr () | Some e \<Rightarrow> Inl e)"
        "files w1' = (files wa)(output_file \<mapsto> csv)"
        by (auto simp: export_recordings_to_csv_def split: option.splits)
      from False Inr g2 wr same
      have "export_recordings_to_csv c2 folder_id output_file w2 =
          Some (case eo of None \<Rightarrow> Inr () | Some e \<Rightarrow> Inl e, cb,
                wb\<lparr>files := (files wb)(output_file \<mapsto> csv)\<rparr>)"
        by (auto simp: export_recordings_to_csv_def split: option.splits)
      with r1 p1 p2 show ?thesis by auto
    qed
  qed
qed

theorem export_deterministic_witness:
  "returned (export_recordings_to_csv (init_client ''https://h/'') ''f'' ''out.csv''
       ((quiet_world (serve [ok_page [rec_a] 1]))
          \<lparr>oauth_grant := Inr ''other'', files := [''out.csv'' \<mapsto> ''old'']\<rparr>)) = Some (Inr ())
   \<and> files_after (export_recordings_to_csv (init_client ''https://h/'') ''f'' ''out.csv''
       ((quiet_world (serve [ok_page [rec_a] 1]))
          \<lparr>oauth_grant := Inr ''other'', files := [''out.csv'' \<mapsto> ''old'']\<rparr>))
     = files_after (export_recordings_to_csv (init_client ''https://h'') ''f'' ''out.csv''
         (quiet_world (serve [ok_page [rec_a] 1])))"
proof -
  let ?w1 = "quiet_world (serve [ok_page [rec_a] 1])"
  let ?w2 = "?w1\<lparr>oauth_grant := Inr ''other'', files := [''out.csv'' \<mapsto> ''old'']\<rparr>"
  let ?c1 = "init_client ''https://h''"
  let ?c2 = "init_client ''https://h/''"
  have url: "server_url ?c1 = server_url ?c2"
    by (simp add: init_client_def rstrip_slash_def)
  have resp: "responses ?w1 = responses ?w2" by simp
  have repr: "repr_container ?w1 = repr_container ?w2" by simp
  have a1: "fst (get_headers ?c1 ?w1) = Inr [(''Authorization'', ''Bearer token''),
                (''Content-Type'', ''application/json'')]"
    by (simp add: get_headers_def ensure_authenticated_def init_client_def quiet_world_def)
  have a2: "fst (get_headers ?c2 ?w2) = Inr [(''Authorization'', ''Bearer other''),
                (''Content-Type'', ''application/json'')]"
    by (simp add: get_headers_def ensure_authenticated_def init_client_def quiet_world_def)
  have "\<exists>c1' w1'. export_recordings_to_csv ?c1 ''f'' ''out.csv'' ?w1 = Some (Inr (), c1', w1')
          \<and> files w1' ''out.csv'' \<noteq> files ?w1 ''out.csv''"
    by (simp add: export_recordings_to_csv_def run_defs fetch_loop_break export_row_def
        format_duration_def format_0d_def show_nat.simps digit_char_def py_str_def)
  then obtain c1' w1' where run: "export_recordings_to_csv ?c1 ''f'' ''out.csv'' ?w1 = Some (Inr (), c1', w1')"
    and changed: "files w1' ''out.csv'' \<noteq> files ?w1 ''out.csv''" by blast
  from export_deterministic [OF url resp repr a1 a2 run] changed run show ?thesis
    by (auto simp: returned_def files_after_def quiet_world_def)
qed

subsection \<open>C10: exceptions out of get_folder_contents\<close>

text \<open>
  Claim C10 says that once the loop has started no exception leaves
  \<^verbatim>\<open>get_folder_contents\<close>. The handlers do catch everything raised in the loop body, but
  the \<^verbatim>\<open>print\<close> after the loop reads \<^verbatim>\<open>total_recordings\<close>, which is bound only once a
  page has been parsed: when the first page fails (here with status 500), the method
  raises UnboundLocalError.
\<close>

theorem first_page_failure_raises:
  "returned (get_folder_contents (init_client ''https://h'') ''f''
       (quiet_world (serve [Response 500 None])))
     = Some (Inl (UnboundLocalError ''total_recordings''))"
  by (simp add: run_defs fetch_loop_break)

end
